theory Spec2Isabelle
  imports Main "HOL-Library.Word"
begin

section \<open>The incremental reader of src/app/page.tsx\<close>

text \<open>
  The component \<open>IncrementalReader\<close> keeps ten pieces of React state and changes them in
  four handlers: \<open>processText\<close>, \<open>handleKeyDown\<close>, \<open>resetReader\<close> and
  \<open>toggleFullscreen\<close>, plus a document-wide key listener and the setters wired to the
  widgets. A handler reads the state of the render it was created in and queues its
  writes, so each handler is a function from the state it sees to the next state, every
  read going to the old state.
\<close>

subsection \<open>JavaScript strings\<close>

text \<open>
  A JavaScript string is a sequence of 16-bit code units. \<open>of_ascii\<close> writes the string
  literals of the source.
\<close>

type_synonym code_unit = "16 word"
type_synonym jsstring = "code_unit list"

definition of_ascii :: "string \<Rightarrow> jsstring" where
  "of_ascii cs = map (\<lambda>c. of_nat (of_char c)) cs"

definition LF :: code_unit where
  "LF = 0x0A"

text \<open>
  \<open>String.prototype.trim\<close> removes, at both ends, the code units that ECMAScript calls
  WhiteSpace (TAB, VT, FF, ZWNBSP and the space separators of Unicode) or LineTerminator
  (LF, CR, LS, PS).
\<close>

definition is_ws :: "code_unit \<Rightarrow> bool" where
  "is_ws c \<longleftrightarrow>
     c = 0x09 \<or> c = 0x0A \<or> c = 0x0B \<or> c = 0x0C \<or> c = 0x0D \<or> c = 0x20 \<or> c = 0xA0 \<or>
     c = 0x1680 \<or> (0x2000 \<le> c \<and> c \<le> 0x200A) \<or> c = 0x2028 \<or> c = 0x2029 \<or>
     c = 0x202F \<or> c = 0x205F \<or> c = 0x3000 \<or> c = 0xFEFF"

definition js_trim :: "jsstring \<Rightarrow> jsstring" where
  "js_trim s = rev (dropWhile is_ws (rev (dropWhile is_ws s)))"

text \<open>
  \<open>s.split(sep)\<close> for a separator of one code unit: the segments between the
  separators, in order, the empty ones included; the empty string gives one empty segment.
  The result is never the empty list, so the \<open>case\<close> below always finds a first
  segment to extend.
\<close>

fun js_split :: "code_unit \<Rightarrow> jsstring \<Rightarrow> jsstring list" where
  "js_split sep [] = [[]]"
| "js_split sep (c # cs) =
     (case js_split sep cs of
        seg # segs \<Rightarrow> (if c = sep then [] # seg # segs else (c # seg) # segs))"

text \<open>\<open>xs.join(sep)\<close>.\<close>

fun js_join :: "jsstring \<Rightarrow> jsstring list \<Rightarrow> jsstring" where
  "js_join sep [] = []"
| "js_join sep [x] = x"
| "js_join sep (x # y # ys) = x @ sep @ js_join sep (y # ys)"

text \<open>\<open>xs[i]\<close>: \<open>None\<close> is JavaScript's \<open>undefined\<close>, the value of a read out of range.\<close>

definition js_nth :: "'a list \<Rightarrow> nat \<Rightarrow> 'a option" where
  "js_nth xs i = (if i < length xs then Some (xs ! i) else None)"

text \<open>\<open>v || ""\<close> on a string or \<open>undefined\<close>: both falsy values give the empty string.\<close>

definition or_empty :: "jsstring option \<Rightarrow> jsstring" where
  "or_empty v = (case v of None \<Rightarrow> [] | Some s \<Rightarrow> (if s = [] then [] else s))"

subsection \<open>The tokenizer (lines 36 to 39)\<close>

definition tokenize :: "jsstring \<Rightarrow> jsstring list" where
  "tokenize inputText =
     filter (\<lambda>line. length line > 0) (map (\<lambda>line. js_trim line) (js_split LF inputText))"

text \<open>
  The tokenizer as the specification words it, written without the library calls of the
  source. The line-break characters are the four line terminators: LF, CR, LS and PS.
  Trimming takes the whitespace off the front of a segment and then off its back, and
  touches nothing in between. The scan goes through the raw text, cuts a segment at each
  character of the break set, trims the segment and keeps it unless trimming left nothing;
  segments come out in the order they are met and equal segments are all kept. The break
  set is a parameter of the scan, so that the same reading can be taken with another set.
\<close>

definition is_line_break :: "code_unit \<Rightarrow> bool" where
  "is_line_break c \<longleftrightarrow> c = 0x0A \<or> c = 0x0D \<or> c = 0x2028 \<or> c = 0x2029"

fun spec_strip_front :: "jsstring \<Rightarrow> jsstring" where
  "spec_strip_front [] = []"
| "spec_strip_front (c # cs) = (if is_ws c then spec_strip_front cs else c # cs)"

fun spec_strip_back :: "jsstring \<Rightarrow> jsstring" where
  "spec_strip_back [] = []"
| "spec_strip_back (c # cs) =
     (case spec_strip_back cs of
        [] \<Rightarrow> (if is_ws c then [] else [c])
      | r # rs \<Rightarrow> c # r # rs)"

definition spec_trim :: "jsstring \<Rightarrow> jsstring" where
  "spec_trim seg = spec_strip_back (spec_strip_front seg)"

definition spec_emit :: "jsstring \<Rightarrow> jsstring list" where
  "spec_emit seg = (case spec_trim seg of [] \<Rightarrow> [] | c # cs \<Rightarrow> [c # cs])"

fun spec_scan :: "(code_unit \<Rightarrow> bool) \<Rightarrow> jsstring \<Rightarrow> jsstring \<Rightarrow> jsstring list" where
  "spec_scan brk seg [] = spec_emit seg"
| "spec_scan brk seg (c # cs) =
     (if brk c then spec_emit seg @ spec_scan brk [] cs else spec_scan brk (seg @ [c]) cs)"

definition spec_tokenize :: "jsstring \<Rightarrow> jsstring list" where
  "spec_tokenize raw = spec_scan is_line_break [] raw"

text \<open>The same reading with LF as the only line break.\<close>

definition spec_tokenize_lf :: "jsstring \<Rightarrow> jsstring list" where
  "spec_tokenize_lf raw = spec_scan (\<lambda>c. c = LF) [] raw"

text \<open>A string is blank when it is empty or holds whitespace only.\<close>

definition blank :: "jsstring \<Rightarrow> bool" where
  "blank s \<longleftrightarrow> list_all is_ws s"

subsection \<open>The state of the component (lines 15 to 24)\<close>

text \<open>
  \<open>currentLineIndex\<close> starts at 0 and is only ever set to 0 or to itself plus one, so
  it is a natural number.
\<close>

record reader_state =
  inputText :: jsstring
  displayedText :: jsstring
  currentLine :: jsstring
  lines :: "jsstring list"
  currentLineIndex :: nat
  activeTab :: jsstring
  isRTL :: bool
  isMarkdown :: bool
  isFullscreen :: bool
  isFocusMode :: bool

definition initial_state :: reader_state where
  "initial_state =
     \<lparr>inputText = [], displayedText = [], currentLine = [], lines = [],
      currentLineIndex = 0, activeTab = of_ascii ''input'', isRTL = True,
      isMarkdown = True, isFullscreen = False, isFocusMode = True\<rparr>"

subsection \<open>processText (lines 32 to 47)\<close>

text \<open>
  The six setters of lines 41 to 46, on the line sequence \<open>textLines\<close>: the
  specification's Initialize.
\<close>

definition initialize :: "reader_state \<Rightarrow> jsstring list \<Rightarrow> reader_state" where
  "initialize s textLines =
     s\<lparr>lines := textLines,
       currentLineIndex := 0,
       displayedText := [],
       currentLine := or_empty (js_nth textLines 0),
       activeTab := of_ascii ''reader'',
       isFullscreen := True\<rparr>"

definition processText :: "reader_state \<Rightarrow> reader_state" where
  "processText s =
     (if js_trim (inputText s) = [] then s
      else let textLines = tokenize (inputText s) in initialize s textLines)"

subsection \<open>handleKeyDown (lines 50 to 78)\<close>

text \<open>
  The handler returns the next state and the indices at which it read the array
  \<open>lines\<close>, in order. \<open>e.preventDefault()\<close> changes nothing in the state.
\<close>

definition handleKeyDown_run :: "reader_state \<Rightarrow> jsstring \<Rightarrow> reader_state \<times> nat list" where
  "handleKeyDown_run s key =
     (if activeTab s \<noteq> of_ascii ''reader'' \<and> \<not> isFullscreen s then (s, [])
      else if key = of_ascii ''Tab'' \<or> key = of_ascii '' '' then
        (if currentLineIndex s < length (lines s) then
           (let nextIndex = currentLineIndex s + 1 in
            (s\<lparr>displayedText :=
                 (if displayedText s \<noteq> [] then displayedText s @ [LF] @ currentLine s
                  else currentLine s),
               currentLineIndex := nextIndex,
               currentLine :=
                 (if nextIndex < length (lines s) then lines s ! nextIndex else [])\<rparr>,
             if nextIndex < length (lines s) then [nextIndex] else []))
         else (s, []))
      else if key = of_ascii ''Escape'' then (s\<lparr>isFullscreen := False\<rparr>, [])
      else (s, []))"

definition handleKeyDown :: "reader_state \<Rightarrow> jsstring \<Rightarrow> reader_state" where
  "handleKeyDown s key = fst (handleKeyDown_run s key)"

definition handleKeyDown_reads :: "reader_state \<Rightarrow> jsstring \<Rightarrow> nat list" where
  "handleKeyDown_reads s key = snd (handleKeyDown_run s key)"

subsection \<open>resetReader, toggleFullscreen and the document listener\<close>

definition resetReader :: "reader_state \<Rightarrow> reader_state" where
  "resetReader s =
     s\<lparr>displayedText := [],
       currentLineIndex := 0,
       currentLine := or_empty (js_nth (lines s) 0)\<rparr>"

definition toggleFullscreen :: "reader_state \<Rightarrow> reader_state" where
  "toggleFullscreen s = s\<lparr>isFullscreen := \<not> isFullscreen s\<rparr>"

definition handleDocumentKeyDown :: "reader_state \<Rightarrow> jsstring \<Rightarrow> reader_state" where
  "handleDocumentKeyDown s key =
     (if key = of_ascii ''Escape'' \<and> isFullscreen s then s\<lparr>isFullscreen := False\<rparr> else s)"

subsection \<open>The events of the page\<close>

text \<open>
  Everything the page wires to a state change: the text area (\<open>setInputText\<close>), the
  Process button, a key pressed on a reader surface, a key reaching the document
  listener, the Reset and Fullscreen buttons, the tab bar and the Go to Input button
  (\<open>setActiveTab\<close>), and the three switches.
\<close>

datatype event =
    ChangeInput jsstring
  | ClickProcess
  | KeyDown jsstring
  | DocumentKeyDown jsstring
  | ClickReset
  | ClickFullscreen
  | ChangeTab jsstring
  | SwitchRTL bool
  | SwitchMarkdown bool
  | SwitchFocusMode bool

fun step :: "reader_state \<Rightarrow> event \<Rightarrow> reader_state" where
  "step s (ChangeInput v) = s\<lparr>inputText := v\<rparr>"
| "step s ClickProcess = processText s"
| "step s (KeyDown key) = handleKeyDown s key"
| "step s (DocumentKeyDown key) = handleDocumentKeyDown s key"
| "step s ClickReset = resetReader s"
| "step s ClickFullscreen = toggleFullscreen s"
| "step s (ChangeTab v) = s\<lparr>activeTab := v\<rparr>"
| "step s (SwitchRTL b) = s\<lparr>isRTL := b\<rparr>"
| "step s (SwitchMarkdown b) = s\<lparr>isMarkdown := b\<rparr>"
| "step s (SwitchFocusMode b) = s\<lparr>isFocusMode := b\<rparr>"

text \<open>The state after a sequence of events, from the first render.\<close>

definition run :: "event list \<Rightarrow> reader_state" where
  "run es = foldl step initial_state es"

text \<open>The events through which the reveal operations run.\<close>

fun reveal_event :: "event \<Rightarrow> bool" where
  "reveal_event ClickProcess = True"
| "reveal_event (KeyDown key) = (key = of_ascii ''Tab'' \<or> key = of_ascii '' '')"
| "reveal_event ClickReset = True"
| "reveal_event _ = False"

text \<open>Advance: a press of Tab on a reader surface; \<open>advances n\<close> presses it \<open>n\<close> times.\<close>

definition advance :: "reader_state \<Rightarrow> reader_state" where
  "advance s = handleKeyDown s (of_ascii ''Tab'')"

definition advances :: "nat \<Rightarrow> reader_state \<Rightarrow> reader_state" where
  "advances n s = (advance ^^ n) s"

subsection \<open>The invariant of the data model\<close>

definition state_inv :: "reader_state \<Rightarrow> bool" where
  "state_inv s \<longleftrightarrow>
     0 \<le> currentLineIndex s \<and> currentLineIndex s \<le> length (lines s) \<and>
     displayedText s = js_join [LF] (take (currentLineIndex s) (lines s))"

text \<open>
  What the handlers keep besides: no line is empty, and \<open>currentLine\<close> is the line at
  the index, or empty past the end.
\<close>

definition reveal_inv :: "reader_state \<Rightarrow> bool" where
  "reveal_inv s \<longleftrightarrow>
     state_inv s \<and> list_all (\<lambda>l. l \<noteq> []) (lines s) \<and>
     currentLine s =
       (if currentLineIndex s < length (lines s) then lines s ! currentLineIndex s else [])"

section \<open>Lemmas on the string operations and the tokenizer\<close>

lemma js_split_not_Nil: "js_split sep s \<noteq> []"
  by (induction s) (auto split: list.splits)

lemma js_split_sub: "seg \<in> set (js_split sep s) \<Longrightarrow> set seg \<subseteq> set s"
proof (induction s arbitrary: seg)
  case Nil then show ?case by simp
next
  case (Cons c cs)
  obtain h t where ht: "js_split sep cs = h # t"
    using js_split_not_Nil [of sep cs] by (cases "js_split sep cs") auto
  have h: "set h \<subseteq> set cs" using Cons.IH [of h] ht by simp
  have t: "\<And>x. x \<in> set t \<Longrightarrow> set x \<subseteq> set cs" using Cons.IH ht by simp
  show ?case using Cons.prems ht h t by (auto split: if_splits)
qed

lemma js_split_covers:
  "c \<in> set s \<Longrightarrow> c \<noteq> sep \<Longrightarrow> \<exists>seg \<in> set (js_split sep s). c \<in> set seg"
proof (induction s)
  case Nil then show ?case by simp
next
  case (Cons d ds)
  obtain h t where ht: "js_split sep ds = h # t"
    using js_split_not_Nil [of sep ds] by (cases "js_split sep ds") auto
  show ?case using Cons ht by (auto split: if_splits)
qed

lemma dropWhile_keeps_last:
  "xs \<noteq> [] \<Longrightarrow> \<not> P (last xs) \<Longrightarrow> dropWhile P xs \<noteq> [] \<and> last (dropWhile P xs) = last xs"
  by (induction xs) (auto split: if_splits)

lemma js_trim_Nil_iff: "js_trim s = [] \<longleftrightarrow> list_all is_ws s"
proof
  assume "js_trim s = []"
  then have d: "\<forall>x \<in> set (dropWhile is_ws s). is_ws x"
    by (simp add: js_trim_def dropWhile_eq_Nil_conv)
  show "list_all is_ws s"
  proof (rule ccontr)
    assume "\<not> list_all is_ws s"
    then have ne: "dropWhile is_ws s \<noteq> []"
      by (simp add: dropWhile_eq_Nil_conv list_all_iff)
    then have "\<not> is_ws (hd (dropWhile is_ws s))" by (rule hd_dropWhile)
    moreover have "hd (dropWhile is_ws s) \<in> set (dropWhile is_ws s)" using ne by simp
    ultimately show False using d by blast
  qed
next
  assume "list_all is_ws s"
  then have "dropWhile is_ws s = []" by (simp add: list_all_iff)
  then show "js_trim s = []" by (simp only: js_trim_def rev.simps dropWhile.simps)
qed

lemma js_trim_sub: "set (js_trim s) \<subseteq> set s"
proof
  fix x assume "x \<in> set (js_trim s)"
  then have "x \<in> set (dropWhile is_ws (rev (dropWhile is_ws s)))" by (simp add: js_trim_def)
  then have "x \<in> set (rev (dropWhile is_ws s))" by (rule set_dropWhileD)
  then have "x \<in> set (dropWhile is_ws s)" by simp
  then show "x \<in> set s" by (rule set_dropWhileD)
qed

lemma js_trim_ends:
  assumes "js_trim s \<noteq> []"
  shows "\<not> is_ws (hd (js_trim s))" and "\<not> is_ws (last (js_trim s))"
proof -
  let ?d = "dropWhile is_ws s"
  let ?e = "dropWhile is_ws (rev ?d)"
  have e: "?e \<noteq> []" using assms by (simp add: js_trim_def)
  have d: "?d \<noteq> []"
  proof
    assume "?d = []"
    then have "?e = []" by (simp only: rev.simps dropWhile.simps)
    with e show False by contradiction
  qed
  have hd_d: "\<not> is_ws (hd ?d)" using d by (rule hd_dropWhile)
  have "rev ?d \<noteq> []" "\<not> is_ws (last (rev ?d))" using d hd_d by (simp_all add: last_rev)
  then have "last ?e = last (rev ?d)" using dropWhile_keeps_last by blast
  then have "last ?e = hd ?d" using d by (simp add: last_rev)
  then show "\<not> is_ws (hd (js_trim s))" using e hd_d by (simp add: js_trim_def hd_rev)
  have "\<not> is_ws (hd ?e)" using e by (rule hd_dropWhile)
  then show "\<not> is_ws (last (js_trim s))" using e by (simp add: js_trim_def last_rev)
qed

lemma is_ws_LF: "is_ws LF" by (simp add: is_ws_def LF_def)

lemma tokenize_Nil_iff: "tokenize raw = [] \<longleftrightarrow> list_all is_ws raw"
proof
  assume t: "tokenize raw = []"
  show "list_all is_ws raw"
    unfolding list_all_iff
  proof
    fix c assume c: "c \<in> set raw"
    show "is_ws c"
    proof (cases "c = LF")
      case True then show ?thesis by (simp add: is_ws_LF)
    next
      case False
      then obtain seg where seg: "seg \<in> set (js_split LF raw)" "c \<in> set seg"
        using js_split_covers [OF c] by blast
      have "js_trim seg = []" using t seg(1) by (auto simp: tokenize_def filter_empty_conv)
      then show ?thesis using seg(2) by (simp add: js_trim_Nil_iff list_all_iff)
    qed
  qed
next
  assume a: "list_all is_ws raw"
  have "\<And>seg. seg \<in> set (js_split LF raw) \<Longrightarrow> js_trim seg = []"
  proof -
    fix seg assume "seg \<in> set (js_split LF raw)"
    then have "set seg \<subseteq> set raw" by (rule js_split_sub)
    then show "js_trim seg = []" using a by (auto simp: js_trim_Nil_iff list_all_iff)
  qed
  then show "tokenize raw = []" by (auto simp: tokenize_def filter_empty_conv)
qed

lemma spec_strip_front_eq: "spec_strip_front s = dropWhile is_ws s"
  by (induction s) simp_all

lemma spec_strip_back_eq: "spec_strip_back s = rev (dropWhile is_ws (rev s))"
proof (induction s)
  case Nil
  show ?case by simp
next
  case (Cons c cs)
  show ?case
  proof (cases "\<forall>x \<in> set cs. is_ws x")
    case True
    then have "dropWhile is_ws (rev cs) = []" by simp
    then have "spec_strip_back cs = []" using Cons.IH by simp
    then show ?thesis using True by (simp add: dropWhile_append)
  next
    case False
    then have ne: "dropWhile is_ws (rev cs) \<noteq> []" by simp
    then have "spec_strip_back cs \<noteq> []" using Cons.IH by simp
    then obtain r rs where r: "spec_strip_back cs = r # rs"
      by (cases "spec_strip_back cs") auto
    have "rev (dropWhile is_ws (rev (c # cs))) = c # rev (dropWhile is_ws (rev cs))"
      using False by (simp add: dropWhile_append)
    then show ?thesis using r Cons.IH by simp
  qed
qed

lemma spec_trim_eq: "spec_trim s = js_trim s"
  by (simp add: spec_trim_def js_trim_def spec_strip_front_eq spec_strip_back_eq)

lemma spec_emit_eq: "spec_emit seg = (if js_trim seg = [] then [] else [js_trim seg])"
  by (simp add: spec_emit_def spec_trim_eq split: list.splits)

lemma spec_scan_split:
  "spec_scan (\<lambda>c. c = sep) seg cs =
     filter (\<lambda>l. l \<noteq> [])
       (map js_trim ((seg @ hd (js_split sep cs)) # tl (js_split sep cs)))"
proof (induction cs arbitrary: seg)
  case Nil
  show ?case by (simp add: spec_emit_eq)
next
  case (Cons c cs)
  obtain h t where ht: "js_split sep cs = h # t"
    using js_split_not_Nil [of sep cs] by (cases "js_split sep cs") auto
  show ?case
  proof (cases "c = sep")
    case True
    then show ?thesis using Cons.IH [of "[]"] ht by (simp add: spec_emit_eq)
  next
    case False
    then show ?thesis using Cons.IH [of "seg @ [c]"] ht by simp
  qed
qed

lemma spec_scan_cong:
  "(\<And>c. c \<in> set cs \<Longrightarrow> p c = q c) \<Longrightarrow> spec_scan p seg cs = spec_scan q seg cs"
  by (induction cs arbitrary: seg) simp_all

lemma tokenize_elems:
  "l \<in> set (tokenize raw) \<Longrightarrow> l \<noteq> [] \<and> \<not> list_all is_ws l \<and> \<not> is_ws (hd l) \<and> \<not> is_ws (last l)"
proof -
  assume "l \<in> set (tokenize raw)"
  then obtain seg where l: "l = js_trim seg" "l \<noteq> []" by (auto simp: tokenize_def)
  then have "\<not> is_ws (hd l)" "\<not> is_ws (last l)" using js_trim_ends [of seg] by simp_all
  moreover have "hd l \<in> set l" using l by simp
  ultimately show ?thesis using l by (auto simp: list_all_iff)
qed

section \<open>Lemmas on the reveal state\<close>

lemma js_join_snoc:
  "js_join sep (xs @ [x]) = (if xs = [] then x else js_join sep xs @ sep @ x)"
  by (induction sep xs rule: js_join.induct) auto

lemma js_join_Nil_iff:
  "list_all (\<lambda>l. l \<noteq> []) xs \<Longrightarrow> js_join sep xs = [] \<longleftrightarrow> xs = []"
  by (induction sep xs rule: js_join.induct) auto

lemma js_join_take_Suc:
  assumes "i < length ls" "list_all (\<lambda>l. l \<noteq> []) ls"
  shows "js_join sep (take (Suc i) ls) =
    (if js_join sep (take i ls) \<noteq> [] then js_join sep (take i ls) @ sep @ ls ! i else ls ! i)"
proof -
  have "list_all (\<lambda>l. l \<noteq> []) (take i ls)"
    using assms(2) by (auto simp: list_all_iff dest: in_set_takeD)
  then have "js_join sep (take i ls) = [] \<longleftrightarrow> take i ls = []" by (rule js_join_Nil_iff)
  then show ?thesis using assms(1) by (simp add: take_Suc_conv_app_nth js_join_snoc)
qed

lemma or_empty_first: "or_empty (js_nth xs 0) = (if 0 < length xs then xs ! 0 else [])"
  by (simp add: or_empty_def js_nth_def)

lemma reveal_inv_initial: "reveal_inv initial_state"
  by (simp add: reveal_inv_def state_inv_def initial_state_def)

lemma reveal_inv_initialize:
  "list_all (\<lambda>l. l \<noteq> []) ls \<Longrightarrow> reveal_inv (initialize s ls)"
  by (simp add: reveal_inv_def state_inv_def initialize_def or_empty_first)

lemma tokenize_all_nonempty: "list_all (\<lambda>l. l \<noteq> []) (tokenize raw)"
  by (simp add: tokenize_def list_all_iff)

lemma reveal_inv_processText: "reveal_inv s \<Longrightarrow> reveal_inv (processText s)"
  by (simp add: processText_def Let_def reveal_inv_initialize tokenize_all_nonempty)

lemma reveal_inv_resetReader: "reveal_inv s \<Longrightarrow> reveal_inv (resetReader s)"
  by (simp add: reveal_inv_def state_inv_def resetReader_def or_empty_first)

lemma reveal_inv_next:
  assumes inv: "reveal_inv s" and lt: "currentLineIndex s < length (lines s)"
  shows "reveal_inv
    (s\<lparr>displayedText :=
         (if displayedText s \<noteq> [] then displayedText s @ [LF] @ currentLine s
          else currentLine s),
       currentLineIndex := Suc (currentLineIndex s),
       currentLine :=
         (if Suc (currentLineIndex s) < length (lines s)
          then lines s ! Suc (currentLineIndex s) else [])\<rparr>)"
proof -
  let ?i = "currentLineIndex s" and ?ls = "lines s"
  have d: "displayedText s = js_join [LF] (take ?i ?ls)"
    and ne: "list_all (\<lambda>l. l \<noteq> []) ?ls"
    and cl: "currentLine s = ?ls ! ?i"
    using inv lt by (simp_all add: reveal_inv_def state_inv_def)
  have "js_join [LF] (take (Suc ?i) ?ls) =
      (if displayedText s \<noteq> [] then displayedText s @ [LF] @ currentLine s else currentLine s)"
    unfolding d cl by (rule js_join_take_Suc [OF lt ne])
  then show ?thesis
    using lt ne unfolding reveal_inv_def state_inv_def by simp
qed

lemma handleKeyDown_cases:
  "handleKeyDown s key = s \<or> handleKeyDown s key = s\<lparr>isFullscreen := False\<rparr> \<or>
   (currentLineIndex s < length (lines s) \<and>
    handleKeyDown s key =
      s\<lparr>displayedText :=
         (if displayedText s \<noteq> [] then displayedText s @ [LF] @ currentLine s
          else currentLine s),
       currentLineIndex := Suc (currentLineIndex s),
       currentLine :=
         (if Suc (currentLineIndex s) < length (lines s)
          then lines s ! Suc (currentLineIndex s) else [])\<rparr>)"
  by (simp add: handleKeyDown_def handleKeyDown_run_def Let_def)

lemma reveal_inv_handleKeyDown:
  assumes "reveal_inv s"
  shows "reveal_inv (handleKeyDown s key)"
proof -
  have "reveal_inv (s\<lparr>isFullscreen := False\<rparr>)"
    using assms by (simp add: reveal_inv_def state_inv_def)
  then show ?thesis
    using handleKeyDown_cases [of s key] assms reveal_inv_next [of s] by auto
qed

lemma reveal_inv_step: "reveal_inv s \<Longrightarrow> reveal_inv (step s e)"
proof (cases e)
  case ClickProcess then show "reveal_inv s \<Longrightarrow> ?thesis" by (simp add: reveal_inv_processText)
next
  case (KeyDown k) then show "reveal_inv s \<Longrightarrow> ?thesis" by (simp add: reveal_inv_handleKeyDown)
next
  case ClickReset then show "reveal_inv s \<Longrightarrow> ?thesis" by (simp add: reveal_inv_resetReader)
qed (simp_all add: reveal_inv_def state_inv_def handleDocumentKeyDown_def toggleFullscreen_def)

lemma reveal_inv_run: "reveal_inv (run es)"
  unfolding run_def
  by (induction es rule: rev_induct) (simp_all add: reveal_inv_initial [unfolded run_def] reveal_inv_step)

lemma step_frame: "\<not> reveal_event e \<Longrightarrow> displayedText (step s e) = displayedText s"
  by (cases e) (auto simp: handleKeyDown_def handleKeyDown_run_def handleDocumentKeyDown_def
      toggleFullscreen_def)

lemma lines_handleKeyDown: "lines (handleKeyDown s key) = lines s"
  using handleKeyDown_cases [of s key] by auto

lemma handleKeyDown_at_end:
  assumes "length (lines s) \<le> currentLineIndex s"
    and "key = of_ascii ''Tab'' \<or> key = of_ascii '' ''"
  shows "handleKeyDown_run s key = (s, [])"
  using assms by (auto simp: handleKeyDown_run_def)

lemma funpow_fixed: "f x = x \<Longrightarrow> (f ^^ n) x = x"
  by (induction n) simp_all

lemma handleKeyDown_reads_in_range:
  "i \<in> set (handleKeyDown_reads s key) \<Longrightarrow> i < length (lines s)"
  by (auto simp: handleKeyDown_reads_def handleKeyDown_run_def Let_def split: if_splits)

lemma advance_reveals:
  assumes "activeTab s = of_ascii ''reader'' \<or> isFullscreen s"
    and "currentLineIndex s < length (lines s)"
  shows "advance s =
      s\<lparr>displayedText :=
         (if displayedText s \<noteq> [] then displayedText s @ [LF] @ currentLine s
          else currentLine s),
       currentLineIndex := Suc (currentLineIndex s),
       currentLine :=
         (if Suc (currentLineIndex s) < length (lines s)
          then lines s ! Suc (currentLineIndex s) else [])\<rparr>"
  using assms by (auto simp: advance_def handleKeyDown_def handleKeyDown_run_def Let_def)

lemma advance_at_end: "length (lines s) \<le> currentLineIndex s \<Longrightarrow> advance s = s"
  by (simp add: advance_def handleKeyDown_def handleKeyDown_at_end)

lemma advances_Suc: "advances (Suc n) s = advance (advances n s)"
  by (simp add: advances_def)

lemma advances_progress:
  assumes "reveal_inv s" and "activeTab s = of_ascii ''reader'' \<or> isFullscreen s"
    and "currentLineIndex s + n \<le> length (lines s)"
  shows "reveal_inv (advances n s) \<and> currentLineIndex (advances n s) = currentLineIndex s + n \<and>
     lines (advances n s) = lines s \<and> activeTab (advances n s) = activeTab s \<and>
     isFullscreen (advances n s) = isFullscreen s"
  using assms(3)
proof (induction n)
  case 0
  show ?case using assms(1) by (simp add: advances_def)
next
  case (Suc n)
  let ?t = "advances n s"
  have t: "reveal_inv ?t" "currentLineIndex ?t = currentLineIndex s + n" "lines ?t = lines s"
    "activeTab ?t = activeTab s" "isFullscreen ?t = isFullscreen s"
    using Suc by simp_all
  have g: "activeTab ?t = of_ascii ''reader'' \<or> isFullscreen ?t" using assms(2) t by simp
  have lt: "currentLineIndex ?t < length (lines ?t)" using Suc.prems t by simp
  have inv: "reveal_inv (advance ?t)"
    unfolding advance_def using t(1) by (rule reveal_inv_handleKeyDown)
  show ?case
    unfolding advances_Suc using inv t by (simp add: advance_reveals [OF g lt])
qed

section \<open>The scenario of the specification, evaluated\<close>

lemma tokenize_hello:
  "tokenize (of_ascii ''Hello\<newline>\<newline>World  \<newline>  '') = [of_ascii ''Hello'', of_ascii ''World'']"
  by (simp add: tokenize_def of_ascii_def LF_def is_ws_def js_trim_def)

lemma not_blank_hello: "\<not> blank (of_ascii ''Hello\<newline>\<newline>World  \<newline>  '')"
  by (simp add: blank_def of_ascii_def is_ws_def)

lemma processText_hello:
  "processText (initial_state\<lparr>inputText := of_ascii ''Hello\<newline>\<newline>World  \<newline>  ''\<rparr>) =
     initial_state\<lparr>inputText := of_ascii ''Hello\<newline>\<newline>World  \<newline>  '',
       lines := [of_ascii ''Hello'', of_ascii ''World''],
       currentLine := of_ascii ''Hello'',
       activeTab := of_ascii ''reader'',
       isFullscreen := True\<rparr>"
proof -
  have "js_trim (of_ascii ''Hello\<newline>\<newline>World  \<newline>  '') \<noteq> []"
    using not_blank_hello by (simp add: js_trim_Nil_iff blank_def)
  then have "processText (initial_state\<lparr>inputText := of_ascii ''Hello\<newline>\<newline>World  \<newline>  ''\<rparr>) =
      initialize (initial_state\<lparr>inputText := of_ascii ''Hello\<newline>\<newline>World  \<newline>  ''\<rparr>)
        [of_ascii ''Hello'', of_ascii ''World'']"
    by (simp add: processText_def tokenize_hello)
  then show ?thesis
    by (simp add: initialize_def or_empty_def js_nth_def initial_state_def of_ascii_def)
qed

lemma advance_hello_1:
  "advance (initial_state\<lparr>inputText := raw,
       lines := [of_ascii ''Hello'', of_ascii ''World''],
       currentLine := of_ascii ''Hello'',
       activeTab := of_ascii ''reader'',
       isFullscreen := True\<rparr>) =
   initial_state\<lparr>inputText := raw,
       lines := [of_ascii ''Hello'', of_ascii ''World''],
       displayedText := of_ascii ''Hello'',
       currentLineIndex := 1,
       currentLine := of_ascii ''World'',
       activeTab := of_ascii ''reader'',
       isFullscreen := True\<rparr>"
  by (simp add: advance_def handleKeyDown_def handleKeyDown_run_def initial_state_def Let_def)

lemma advance_hello_2:
  "advance (initial_state\<lparr>inputText := raw,
       lines := [of_ascii ''Hello'', of_ascii ''World''],
       displayedText := of_ascii ''Hello'',
       currentLineIndex := 1,
       currentLine := of_ascii ''World'',
       activeTab := of_ascii ''reader'',
       isFullscreen := True\<rparr>) =
   initial_state\<lparr>inputText := raw,
       lines := [of_ascii ''Hello'', of_ascii ''World''],
       displayedText := of_ascii ''Hello\<newline>World'',
       currentLineIndex := 2,
       currentLine := [],
       activeTab := of_ascii ''reader'',
       isFullscreen := True\<rparr>"
  by (simp add: advance_def handleKeyDown_def handleKeyDown_run_def initial_state_def Let_def
      of_ascii_def LF_def)

lemma advance_hello_3:
  "advance (initial_state\<lparr>inputText := raw,
       lines := [of_ascii ''Hello'', of_ascii ''World''],
       displayedText := of_ascii ''Hello\<newline>World'',
       currentLineIndex := 2,
       currentLine := [],
       activeTab := of_ascii ''reader'',
       isFullscreen := True\<rparr>) =
   initial_state\<lparr>inputText := raw,
       lines := [of_ascii ''Hello'', of_ascii ''World''],
       displayedText := of_ascii ''Hello\<newline>World'',
       currentLineIndex := 2,
       currentLine := [],
       activeTab := of_ascii ''reader'',
       isFullscreen := True\<rparr>"
  by (simp add: advance_def handleKeyDown_def handleKeyDown_run_def initial_state_def Let_def)

section \<open>The claims\<close>

text \<open>
  C1. In every state the page can reach, and so after each of \<open>processText\<close>, a press
  of Tab or Space and \<open>resetReader\<close> applied to such a state, the index is between 0
  and the number of lines and the displayed text is the lines before the index joined by
  line breaks (the empty string at index 0). An event that is none of these three
  operations leaves the displayed text as it is, in any state.
\<close>

theorem state_invariant_holds:
  "state_inv (run es) \<and> state_inv (processText (run es)) \<and>
   state_inv (handleKeyDown (run es) (of_ascii ''Tab'')) \<and>
   state_inv (handleKeyDown (run es) (of_ascii '' '')) \<and>
   state_inv (resetReader (run es)) \<and>
   (\<not> reveal_event e \<longrightarrow> displayedText (step s e) = displayedText s)"
  using reveal_inv_run [of es] reveal_inv_processText [of "run es"]
    reveal_inv_handleKeyDown [of "run es"] reveal_inv_resetReader [of "run es"]
    step_frame [of e s]
  by (simp add: reveal_inv_def)

theorem state_invariant_holds_witness:
  "\<not> reveal_event ClickFullscreen \<and>
   state_inv (run [ChangeInput (of_ascii ''Hello\<newline>\<newline>World  \<newline>  ''), ClickProcess, KeyDown (of_ascii ''Tab'')]) \<and>
   currentLineIndex (run [ChangeInput (of_ascii ''Hello\<newline>\<newline>World  \<newline>  ''), ClickProcess, KeyDown (of_ascii ''Tab'')]) = 1 \<and>
   displayedText (run [ChangeInput (of_ascii ''Hello\<newline>\<newline>World  \<newline>  ''), ClickProcess, KeyDown (of_ascii ''Tab'')]) =
     of_ascii ''Hello'' \<and>
   displayedText
     (step (run [ChangeInput (of_ascii ''Hello\<newline>\<newline>World  \<newline>  ''), ClickProcess, KeyDown (of_ascii ''Tab'')]) ClickFullscreen) =
     of_ascii ''Hello''"
proof -
  have r: "run [ChangeInput (of_ascii ''Hello\<newline>\<newline>World  \<newline>  ''), ClickProcess, KeyDown (of_ascii ''Tab'')] =
      initial_state\<lparr>inputText := of_ascii ''Hello\<newline>\<newline>World  \<newline>  '',
        lines := [of_ascii ''Hello'', of_ascii ''World''],
        displayedText := of_ascii ''Hello'',
        currentLineIndex := 1,
        currentLine := of_ascii ''World'',
        activeTab := of_ascii ''reader'',
        isFullscreen := True\<rparr>"
    by (simp only: run_def foldl.simps step.simps advance_def [symmetric] processText_hello
        advance_hello_1)
  show ?thesis
    using state_invariant_holds
      [of "[ChangeInput (of_ascii ''Hello\<newline>\<newline>World  \<newline>  ''), ClickProcess, KeyDown (of_ascii ''Tab'')]" ClickFullscreen
        "run [ChangeInput (of_ascii ''Hello\<newline>\<newline>World  \<newline>  ''), ClickProcess, KeyDown (of_ascii ''Tab'')]"]
    unfolding r by simp
qed

text \<open>
  C2. In a reachable state whose index is at or past the number of lines, a press of Tab
  or Space returns the state unchanged and reads no element of \<open>lines\<close>; the current
  line is the empty string there, and any number of further presses gives the same
  state. In any state at all, every index at which the handler reads \<open>lines\<close> is
  within the array.
\<close>

theorem advance_past_end_is_noop:
  assumes "length (lines (run es)) \<le> currentLineIndex (run es)"
    and "key = of_ascii ''Tab'' \<or> key = of_ascii '' ''"
  shows "handleKeyDown (run es) key = run es \<and>
     handleKeyDown_reads (run es) key = [] \<and>
     currentLine (run es) = [] \<and>
     ((\<lambda>t. handleKeyDown t key) ^^ n) (run es) = run es \<and>
     (\<forall>t k. \<forall>i \<in> set (handleKeyDown_reads t k). i < length (lines t))"
proof -
  have r: "handleKeyDown_run (run es) key = (run es, [])"
    using assms by (rule handleKeyDown_at_end)
  then have h: "handleKeyDown (run es) key = run es" by (simp add: handleKeyDown_def)
  have c: "currentLine (run es) = []"
    using reveal_inv_run [of es] assms(1) by (simp add: reveal_inv_def)
  show ?thesis
    using r h c funpow_fixed [of "\<lambda>t. handleKeyDown t key" "run es" n, OF h]
      handleKeyDown_reads_in_range
    by (simp add: handleKeyDown_reads_def)
qed

theorem advance_past_end_is_noop_witness:
  "length (lines (run [ChangeInput (of_ascii ''Hello\<newline>\<newline>World  \<newline>  ''), ClickProcess, KeyDown (of_ascii ''Tab''),
       KeyDown (of_ascii ''Tab'')])) \<le>
     currentLineIndex (run [ChangeInput (of_ascii ''Hello\<newline>\<newline>World  \<newline>  ''), ClickProcess, KeyDown (of_ascii ''Tab''),
       KeyDown (of_ascii ''Tab'')]) \<and>
   handleKeyDown (run [ChangeInput (of_ascii ''Hello\<newline>\<newline>World  \<newline>  ''), ClickProcess, KeyDown (of_ascii ''Tab''),
       KeyDown (of_ascii ''Tab'')]) (of_ascii '' '') =
     run [ChangeInput (of_ascii ''Hello\<newline>\<newline>World  \<newline>  ''), ClickProcess, KeyDown (of_ascii ''Tab''), KeyDown (of_ascii ''Tab'')] \<and>
   handleKeyDown_reads (run [ChangeInput (of_ascii ''Hello\<newline>\<newline>World  \<newline>  ''), ClickProcess, KeyDown (of_ascii ''Tab''),
       KeyDown (of_ascii ''Tab'')]) (of_ascii '' '') = [] \<and>
   ((\<lambda>t. handleKeyDown t (of_ascii '' '')) ^^ 3)
       (run [ChangeInput (of_ascii ''Hello\<newline>\<newline>World  \<newline>  ''), ClickProcess, KeyDown (of_ascii ''Tab''),
          KeyDown (of_ascii ''Tab'')]) =
     run [ChangeInput (of_ascii ''Hello\<newline>\<newline>World  \<newline>  ''), ClickProcess, KeyDown (of_ascii ''Tab''), KeyDown (of_ascii ''Tab'')]"
proof -
  have r: "run [ChangeInput (of_ascii ''Hello\<newline>\<newline>World  \<newline>  ''), ClickProcess, KeyDown (of_ascii ''Tab''),
        KeyDown (of_ascii ''Tab'')] =
      initial_state\<lparr>inputText := of_ascii ''Hello\<newline>\<newline>World  \<newline>  '',
        lines := [of_ascii ''Hello'', of_ascii ''World''],
        displayedText := of_ascii ''Hello\<newline>World'',
        currentLineIndex := 2,
        currentLine := [],
        activeTab := of_ascii ''reader'',
        isFullscreen := True\<rparr>"
    by (simp only: run_def foldl.simps step.simps advance_def [symmetric] processText_hello
        advance_hello_1 advance_hello_2)
  have h: "length (lines (run [ChangeInput (of_ascii ''Hello\<newline>\<newline>World  \<newline>  ''), ClickProcess, KeyDown (of_ascii ''Tab''),
       KeyDown (of_ascii ''Tab'')])) \<le>
     currentLineIndex (run [ChangeInput (of_ascii ''Hello\<newline>\<newline>World  \<newline>  ''), ClickProcess, KeyDown (of_ascii ''Tab''),
       KeyDown (of_ascii ''Tab'')])"
    unfolding r by simp
  show ?thesis
    using h advance_past_end_is_noop [OF h, of "of_ascii '' ''" 3] by simp
qed

text \<open>
  C3. No element of the tokenizer's result is empty or blank (whitespace only), whatever
  the raw input; and when some segment of the input between line breaks is not blank,
  the result has at least one element.
\<close>

theorem tokenize_no_blank_line:
  "(\<forall>l \<in> set (tokenize raw). l \<noteq> [] \<and> \<not> blank l) \<and>
   ((\<exists>seg \<in> set (js_split LF raw). \<not> blank seg) \<longrightarrow> length (tokenize raw) \<ge> 1)"
proof
  show "\<forall>l \<in> set (tokenize raw). l \<noteq> [] \<and> \<not> blank l"
    using tokenize_elems [of _ raw] by (simp add: blank_def)
  show "(\<exists>seg \<in> set (js_split LF raw). \<not> blank seg) \<longrightarrow> length (tokenize raw) \<ge> 1"
  proof
    assume "\<exists>seg \<in> set (js_split LF raw). \<not> blank seg"
    then obtain seg where seg: "seg \<in> set (js_split LF raw)" "\<not> list_all is_ws seg"
      by (auto simp: blank_def)
    have "set seg \<subseteq> set raw" using seg(1) by (rule js_split_sub)
    then have "\<not> list_all is_ws raw" using seg(2) by (auto simp: list_all_iff)
    then have "tokenize raw \<noteq> []" by (simp add: tokenize_Nil_iff)
    then show "length (tokenize raw) \<ge> 1" by (cases "tokenize raw") simp_all
  qed
qed

theorem tokenize_no_blank_line_witness:
  "(\<exists>seg \<in> set (js_split LF (of_ascii ''Hello\<newline>\<newline>World  \<newline>  '')). \<not> blank seg) \<and>
   list_all (\<lambda>l. l \<noteq> [] \<and> \<not> blank l) (tokenize (of_ascii ''Hello\<newline>\<newline>World  \<newline>  '')) \<and>
   length (tokenize (of_ascii ''Hello\<newline>\<newline>World  \<newline>  '')) \<ge> 1"
proof -
  have s: "js_split LF (of_ascii ''Hello\<newline>\<newline>World  \<newline>  '') =
      [of_ascii ''Hello'', [], of_ascii ''World  '', of_ascii ''  '']"
    by (simp add: of_ascii_def LF_def)
  have b: "\<not> blank (of_ascii ''Hello'')"
    by (simp add: blank_def of_ascii_def is_ws_def)
  have h: "\<exists>seg \<in> set (js_split LF (of_ascii ''Hello\<newline>\<newline>World  \<newline>  '')). \<not> blank seg"
    unfolding s using b by simp
  show ?thesis
    using h tokenize_no_blank_line [of "of_ascii ''Hello\<newline>\<newline>World  \<newline>  ''"] unfolding list_all_iff by blast
qed

text \<open>
  C4. The scenario of the specification: the input of two lines with a blank line
  between them and trailing spaces tokenizes to Hello and World; \<open>processText\<close> shows
  Hello as the current line over an empty displayed text; one press of Tab displays
  Hello with World current; a second displays both lines and leaves no current line; a
  third changes nothing.
\<close>

theorem scenario_hello_world:
  "tokenize (of_ascii ''Hello\<newline>\<newline>World  \<newline>  '') = [of_ascii ''Hello'', of_ascii ''World''] \<and>
   currentLine (processText (initial_state\<lparr>inputText := of_ascii ''Hello\<newline>\<newline>World  \<newline>  ''\<rparr>))
     = of_ascii ''Hello'' \<and>
   displayedText (processText (initial_state\<lparr>inputText := of_ascii ''Hello\<newline>\<newline>World  \<newline>  ''\<rparr>))
     = [] \<and>
   displayedText (advances 1 (processText (initial_state\<lparr>inputText := of_ascii ''Hello\<newline>\<newline>World  \<newline>  ''\<rparr>)))
     = of_ascii ''Hello'' \<and>
   currentLine (advances 1 (processText (initial_state\<lparr>inputText := of_ascii ''Hello\<newline>\<newline>World  \<newline>  ''\<rparr>)))
     = of_ascii ''World'' \<and>
   displayedText (advances 2 (processText (initial_state\<lparr>inputText := of_ascii ''Hello\<newline>\<newline>World  \<newline>  ''\<rparr>)))
     = of_ascii ''Hello\<newline>World'' \<and>
   currentLine (advances 2 (processText (initial_state\<lparr>inputText := of_ascii ''Hello\<newline>\<newline>World  \<newline>  ''\<rparr>)))
     = [] \<and>
   advances 3 (processText (initial_state\<lparr>inputText := of_ascii ''Hello\<newline>\<newline>World  \<newline>  ''\<rparr>))
     = advances 2 (processText (initial_state\<lparr>inputText := of_ascii ''Hello\<newline>\<newline>World  \<newline>  ''\<rparr>))"
proof -
  have n: "advances 1 s = advance s" "advances 2 s = advance (advance s)"
    "advances 3 s = advance (advance (advance s))" for s
    by (simp_all add: advances_def numeral_2_eq_2 numeral_3_eq_3)
  show ?thesis
    unfolding n processText_hello advance_hello_1 advance_hello_2 advance_hello_3
    by (simp add: tokenize_hello initial_state_def)
qed

text \<open>
  C5. Initialize on a sequence of lines that is not empty and has no empty line, then as
  many presses of Tab as there are lines: the displayed text is all the lines joined by
  line breaks and the current line is empty; one more press returns the same state.
\<close>

theorem advance_total_times_reveals_all:
  assumes "ls \<noteq> []" and "list_all (\<lambda>l. l \<noteq> []) ls"
  shows "displayedText (advances (length ls) (initialize s ls)) = js_join [LF] ls \<and>
     currentLine (advances (length ls) (initialize s ls)) = [] \<and>
     advance (advances (length ls) (initialize s ls)) = advances (length ls) (initialize s ls)"
proof -
  let ?s0 = "initialize s ls"
  let ?t = "advances (length ls) ?s0"
  have inv0: "reveal_inv ?s0" using assms(2) by (rule reveal_inv_initialize)
  have g: "activeTab ?s0 = of_ascii ''reader'' \<or> isFullscreen ?s0" by (simp add: initialize_def)
  have b: "currentLineIndex ?s0 + length ls \<le> length (lines ?s0)" by (simp add: initialize_def)
  have p: "reveal_inv ?t" "currentLineIndex ?t = length ls" "lines ?t = ls"
    using advances_progress [OF inv0 g b] by (simp_all add: initialize_def)
  have "displayedText ?t = js_join [LF] ls" "currentLine ?t = []"
    using p by (simp_all add: reveal_inv_def state_inv_def)
  moreover have "advance ?t = ?t" using p by (simp add: advance_at_end)
  ultimately show ?thesis by simp
qed

theorem advance_total_times_reveals_all_witness:
  "[of_ascii ''Hello'', of_ascii ''World''] \<noteq> [] \<and>
   list_all (\<lambda>l. l \<noteq> []) [of_ascii ''Hello'', of_ascii ''World''] \<and>
   displayedText (advances (length [of_ascii ''Hello'', of_ascii ''World''])
     (initialize initial_state [of_ascii ''Hello'', of_ascii ''World''])) = of_ascii ''Hello\<newline>World'' \<and>
   currentLine (advances (length [of_ascii ''Hello'', of_ascii ''World''])
     (initialize initial_state [of_ascii ''Hello'', of_ascii ''World''])) = []"
proof -
  have n: "[of_ascii ''Hello'', of_ascii ''World''] \<noteq> []" by simp
  have a: "list_all (\<lambda>l. l \<noteq> []) [of_ascii ''Hello'', of_ascii ''World'']"
    by (simp add: of_ascii_def)
  have j: "js_join [LF] [of_ascii ''Hello'', of_ascii ''World''] = of_ascii ''Hello\<newline>World''"
    by (simp add: of_ascii_def LF_def)
  show ?thesis
    using n a advance_total_times_reveals_all [OF n a, of initial_state] unfolding j by simp
qed

text \<open>
  C6. After any number of presses of Tab, from any state, \<open>resetReader\<close> sets the
  index to 0 and the displayed text to the empty string, makes the first line current
  (the empty string when there is no line), and leaves the line sequence as it was
  before the presses.
\<close>

theorem reset_restores_start:
  "currentLineIndex (resetReader (advances n s)) = 0 \<and>
   displayedText (resetReader (advances n s)) = [] \<and>
   currentLine (resetReader (advances n s)) = (case lines s of [] \<Rightarrow> [] | l # _ \<Rightarrow> l) \<and>
   lines (resetReader (advances n s)) = lines s \<and>
   lines (advances n s) = lines s"
proof -
  have l: "lines (advances n s) = lines s"
    by (induction n) (simp_all add: advances_def advance_def lines_handleKeyDown)
  show ?thesis
    using l by (simp add: resetReader_def or_empty_def js_nth_def nth_Cons' split: list.splits)
qed

text \<open>
  C7. When the input text is empty or blank, \<open>processText\<close> returns the state it was
  given: the line sequence, the index, the displayed text, the current line, the active
  tab and the fullscreen flag all stay as they were. The tokenizer gives the empty
  sequence on such an input.
\<close>

theorem blank_input_not_processed:
  "blank (inputText s) \<Longrightarrow>
     processText s = s \<and> step s ClickProcess = s \<and> tokenize (inputText s) = []"
  by (simp add: processText_def js_trim_Nil_iff tokenize_Nil_iff blank_def)

theorem blank_input_not_processed_witness:
  "blank (of_ascii ''   \<newline>  \<newline>'') \<and>
   processText (initial_state\<lparr>inputText := of_ascii ''   \<newline>  \<newline>''\<rparr>) =
     initial_state\<lparr>inputText := of_ascii ''   \<newline>  \<newline>''\<rparr> \<and>
   tokenize (of_ascii ''   \<newline>  \<newline>'') = [] \<and>
   blank [] \<and> processText initial_state = initial_state \<and> tokenize [] = []"
proof -
  have b: "blank (of_ascii ''   \<newline>  \<newline>'')"
    by (simp add: blank_def of_ascii_def is_ws_def)
  have e: "blank []" by (simp add: blank_def)
  show ?thesis
    using b e blank_input_not_processed [of "initial_state\<lparr>inputText := of_ascii ''   \<newline>  \<newline>''\<rparr>"]
      blank_input_not_processed [of initial_state]
    by (simp add: initial_state_def)
qed

text \<open>
  C8. \<open>toggleFullscreen\<close>, Escape on a reader surface and Escape at the document
  listener leave the index, the displayed text, the current line and the line sequence
  as they are, in any state.
\<close>

theorem fullscreen_keeps_progress:
  "currentLineIndex (toggleFullscreen s) = currentLineIndex s \<and>
   displayedText (toggleFullscreen s) = displayedText s \<and>
   currentLine (toggleFullscreen s) = currentLine s \<and>
   lines (toggleFullscreen s) = lines s \<and>
   currentLineIndex (handleKeyDown s (of_ascii ''Escape'')) = currentLineIndex s \<and>
   displayedText (handleKeyDown s (of_ascii ''Escape'')) = displayedText s \<and>
   currentLine (handleKeyDown s (of_ascii ''Escape'')) = currentLine s \<and>
   lines (handleKeyDown s (of_ascii ''Escape'')) = lines s \<and>
   currentLineIndex (handleDocumentKeyDown s (of_ascii ''Escape'')) = currentLineIndex s \<and>
   displayedText (handleDocumentKeyDown s (of_ascii ''Escape'')) = displayedText s \<and>
   currentLine (handleDocumentKeyDown s (of_ascii ''Escape'')) = currentLine s \<and>
   lines (handleDocumentKeyDown s (of_ascii ''Escape'')) = lines s"
  by (simp add: toggleFullscreen_def handleKeyDown_def handleKeyDown_run_def
      handleDocumentKeyDown_def of_ascii_def)

text \<open>
  C9, as stated, fails. Read with every line-break character as a cut, the
  specification's tokenizer makes two lines of the text a, CR, b; the source splits at LF
  only and returns the one line a, CR, b with the CR inside it.
\<close>

theorem tokenize_line_break_counterexample:
  "tokenize [0x61, 0x0D, 0x62] = [[0x61, 0x0D, 0x62]] \<and>
   spec_tokenize [0x61, 0x0D, 0x62] = [[0x61], [0x62]] \<and>
   tokenize [0x61, 0x0D, 0x62] \<noteq> spec_tokenize [0x61, 0x0D, 0x62]"
  by (simp add: tokenize_def LF_def js_trim_def is_ws_def spec_tokenize_def spec_emit_def
      spec_trim_def is_line_break_def)

text \<open>
  C9, amended. For every raw input the tokenizer of the source returns what the
  specification's reading returns when LF is the only line break: the segments between
  the LFs, each with the whitespace taken off its front and its back, the empty ones
  dropped, in their order, duplicates kept. On a raw text whose only line-break
  characters are LFs this is also what the reading with all four line breaks returns.
\<close>

theorem tokenize_splits_at_line_feed:
  "tokenize raw = spec_tokenize_lf raw \<and>
   ((\<forall>c \<in> set raw. is_line_break c \<longrightarrow> c = LF) \<longrightarrow> tokenize raw = spec_tokenize raw)"
proof -
  obtain h t where ht: "js_split LF raw = h # t"
    using js_split_not_Nil [of LF raw] by (cases "js_split LF raw") auto
  have lf: "tokenize raw = spec_tokenize_lf raw"
    unfolding spec_tokenize_lf_def spec_scan_split tokenize_def using ht by simp
  have "spec_tokenize raw = spec_tokenize_lf raw"
    if only: "\<forall>c \<in> set raw. is_line_break c \<longrightarrow> c = LF"
  proof -
    have "is_line_break c = (c = LF)" if "c \<in> set raw" for c
      using only that by (auto simp: is_line_break_def LF_def)
    then show ?thesis
      unfolding spec_tokenize_def spec_tokenize_lf_def by (rule spec_scan_cong)
  qed
  then show ?thesis using lf by simp
qed

theorem tokenize_splits_at_line_feed_witness:
  "list_all (\<lambda>c. is_line_break c \<longrightarrow> c = LF) (of_ascii ''Hello\<newline>\<newline>World  \<newline>  '') \<and>
   tokenize (of_ascii ''Hello\<newline>\<newline>World  \<newline>  '') = spec_tokenize (of_ascii ''Hello\<newline>\<newline>World  \<newline>  '') \<and>
   spec_tokenize (of_ascii ''Hello\<newline>\<newline>World  \<newline>  '') = [of_ascii ''Hello'', of_ascii ''World''] \<and>
   tokenize [0x61, 0x0D, 0x62] = spec_tokenize_lf [0x61, 0x0D, 0x62] \<and>
   spec_tokenize_lf [0x61, 0x0D, 0x62] = [[0x61, 0x0D, 0x62]]"
proof -
  have only: "\<forall>c \<in> set (of_ascii ''Hello\<newline>\<newline>World  \<newline>  ''). is_line_break c \<longrightarrow> c = LF"
    by (simp add: of_ascii_def is_line_break_def LF_def)
  have eq: "tokenize (of_ascii ''Hello\<newline>\<newline>World  \<newline>  '') = spec_tokenize (of_ascii ''Hello\<newline>\<newline>World  \<newline>  '')"
    using only tokenize_splits_at_line_feed [of "of_ascii ''Hello\<newline>\<newline>World  \<newline>  ''"] by blast
  have cr: "tokenize [0x61, 0x0D, 0x62] = spec_tokenize_lf [0x61, 0x0D, 0x62]"
    using tokenize_splits_at_line_feed [of "[0x61, 0x0D, 0x62]"] by blast
  have v: "spec_tokenize_lf [0x61, 0x0D, 0x62] = [[0x61, 0x0D, 0x62]]"
    by (simp add: spec_tokenize_lf_def LF_def spec_emit_def spec_trim_def is_ws_def)
  show ?thesis
    using only eq cr v tokenize_hello unfolding list_all_iff by simp
qed

text \<open>
  C10. The setters of \<open>processText\<close> always make reader the active tab and set the
  fullscreen flag; \<open>processText\<close> runs them whenever the input text is not blank, so a
  process that goes through ends on the reader tab in fullscreen.
\<close>

theorem process_enters_fullscreen:
  "activeTab (initialize s ls) = of_ascii ''reader'' \<and> isFullscreen (initialize s ls) \<and>
   (\<not> blank (inputText s) \<longrightarrow>
      processText s = initialize s (tokenize (inputText s)) \<and>
      activeTab (processText s) = of_ascii ''reader'' \<and> isFullscreen (processText s))"
  by (simp add: processText_def initialize_def js_trim_Nil_iff blank_def)

theorem process_enters_fullscreen_witness:
  "\<not> blank (inputText (initial_state\<lparr>inputText := of_ascii ''Hello\<newline>\<newline>World  \<newline>  ''\<rparr>)) \<and>
   activeTab (initial_state\<lparr>inputText := of_ascii ''Hello\<newline>\<newline>World  \<newline>  ''\<rparr>) = of_ascii ''input'' \<and>
   \<not> isFullscreen (initial_state\<lparr>inputText := of_ascii ''Hello\<newline>\<newline>World  \<newline>  ''\<rparr>) \<and>
   activeTab (processText (initial_state\<lparr>inputText := of_ascii ''Hello\<newline>\<newline>World  \<newline>  ''\<rparr>)) = of_ascii ''reader'' \<and>
   isFullscreen (processText (initial_state\<lparr>inputText := of_ascii ''Hello\<newline>\<newline>World  \<newline>  ''\<rparr>))"
proof -
  let ?s = "initial_state\<lparr>inputText := of_ascii ''Hello\<newline>\<newline>World  \<newline>  ''\<rparr>"
  have b: "\<not> blank (inputText ?s)"
    using not_blank_hello by simp
  have c: "activeTab (processText ?s) = of_ascii ''reader'' \<and> isFullscreen (processText ?s)"
    using b process_enters_fullscreen [of ?s "[]"] by blast
  have i: "activeTab ?s = of_ascii ''input'' \<and> \<not> isFullscreen ?s"
    by (simp add: initial_state_def)
  show ?thesis
    using b c i by blast
qed

end
